theory Spec2Isabelle
  imports Complex_Main "HOL-Library.Product_Lexorder" "HOL-Library.Sublist"
begin

section \<open>Strings, floats and errors of the Python source\<close>

text \<open>
  A Python \<^verbatim>\<open>str\<close> is a sequence of Unicode code points: \<^verbatim>\<open>len\<close>, indexing and slicing
  count code points. A code point is a natural number here and a string is a list of them.
  The ASCII literals of the source are written with \<open>ascii\<close>; the Chinese literals are
  written as their code points.
\<close>

type_synonym codepoint = nat
type_synonym str = "codepoint list"

definition ascii :: "string \<Rightarrow> str" where
  "ascii s = map of_char s"

text \<open>
  \<^verbatim>\<open>s[:i]\<close> and \<^verbatim>\<open>s[i:]\<close> for a Python integer \<open>i\<close>: a negative bound counts from the
  end of the string and every bound is clamped to the string, so that slicing never raises.
\<close>

definition slice_to :: "'a list \<Rightarrow> int \<Rightarrow> 'a list" where
  "slice_to s i = (if i < 0 then take (nat (int (length s) + i)) s else take (nat i) s)"

definition slice_from :: "'a list \<Rightarrow> int \<Rightarrow> 'a list" where
  "slice_from s i = (if i < 0 then drop (nat (int (length s) + i)) s else drop (nat i) s)"

text \<open>
  A Python \<^verbatim>\<open>float\<close>. The source only compares confidences (\<^verbatim>\<open>>\<close> and \<^verbatim>\<open>==\<close>), and
  the comparison of two finite floats is the comparison of the real numbers they denote.
  Every comparison with NaN is false.
\<close>

datatype pyfloat = NaN | NegInf | Fin real | PosInf

fun float_gt :: "pyfloat \<Rightarrow> pyfloat \<Rightarrow> bool" where
  "float_gt NaN _ = False"
| "float_gt _ NaN = False"
| "float_gt (Fin x) (Fin y) = (y < x)"
| "float_gt PosInf PosInf = False"
| "float_gt PosInf _ = True"
| "float_gt _ PosInf = False"
| "float_gt NegInf _ = False"
| "float_gt (Fin x) NegInf = True"

fun float_eq :: "pyfloat \<Rightarrow> pyfloat \<Rightarrow> bool" where
  "float_eq NaN _ = False"
| "float_eq _ NaN = False"
| "float_eq a b = (a = b)"

datatype error = ValueError | RecognitionError | OtherException

section \<open>recognition\_engine.py: SensitiveItem\<close>

text \<open>
  The dataclass \<^verbatim>\<open>SensitiveItem\<close>. The fields \<^verbatim>\<open>id\<close>, \<^verbatim>\<open>type\<close> and \<^verbatim>\<open>value\<close> are
  named \<open>item_id\<close>, \<open>item_type\<close> and \<open>item_value\<close>.
\<close>

record SensitiveItem =
  item_id :: str
  item_type :: str
  item_value :: str
  start_pos :: int
  end_pos :: int
  confidence :: pyfloat

text \<open>
  Construction: the generated \<^verbatim>\<open>__init__\<close> stores the fields and calls
  \<^verbatim>\<open>__post_init__\<close>, which raises \<^verbatim>\<open>ValueError\<close> when \<^verbatim>\<open>end_pos < start_pos\<close>.
\<close>

definition SensitiveItem_init ::
  "str \<Rightarrow> str \<Rightarrow> str \<Rightarrow> int \<Rightarrow> int \<Rightarrow> pyfloat \<Rightarrow> error + SensitiveItem" where
  "SensitiveItem_init i t v s e c =
     (if e < s then Inl ValueError
      else Inr \<lparr>item_id = i, item_type = t, item_value = v,
                start_pos = s, end_pos = e, confidence = c\<rparr>)"

section \<open>recognition\_engine.py: the regular expressions\<close>

text \<open>
  Every pattern of \<^verbatim>\<open>REGEX_PATTERNS\<close> is a sequence of greedy repetitions of a character
  class. An atom is a class with the least and the greatest number of repetitions (\<open>None\<close>
  for no upper bound); a single character or class is repeated exactly once.
\<close>

type_synonym atom = "(codepoint \<Rightarrow> bool) \<times> nat \<times> nat option"

text \<open>The greatest number of characters at the head of \<open>s\<close> that a greedy atom takes.\<close>

definition greedy_count :: "(codepoint \<Rightarrow> bool) \<Rightarrow> nat option \<Rightarrow> str \<Rightarrow> nat" where
  "greedy_count cls hi s =
     (let k = length (takeWhile cls s)
      in case hi of None \<Rightarrow> k | Some h \<Rightarrow> min k h)"

text \<open>
  Backtracking over a greedy atom: the atom has taken \<open>j\<close> characters; the rest of the
  pattern \<open>cont\<close> is tried behind them, and when it fails the atom gives one character
  back, down to its least number \<open>lo\<close>. The result is the length of the whole match.
\<close>

fun backtrack :: "(str \<Rightarrow> nat option) \<Rightarrow> str \<Rightarrow> nat \<Rightarrow> nat \<Rightarrow> nat option" where
  "backtrack cont s lo 0 =
     (if 0 < lo then None else cont s)"
| "backtrack cont s lo (Suc j) =
     (if Suc j < lo then None
      else case cont (drop (Suc j) s) of
             Some m \<Rightarrow> Some (Suc j + m)
           | None \<Rightarrow> backtrack cont s lo j)"

text \<open>The match of a pattern at the head of \<open>s\<close>, as the backtracking matcher finds it.\<close>

primrec match_here :: "atom list \<Rightarrow> str \<Rightarrow> nat option" where
  "match_here [] s = Some 0"
| "match_here (a # rest) s =
     (case a of (cls, lo, hi) \<Rightarrow> backtrack (match_here rest) s lo (greedy_count cls hi s))"

text \<open>
  \<^verbatim>\<open>re.finditer\<close>: the matches \<^verbatim>\<open>(match.start(), match.end())\<close> from position \<open>pos\<close> on,
  leftmost first, each search starting where the last match ended. After an empty match
  the search moves on by one character; no pattern of \<^verbatim>\<open>REGEX_PATTERNS\<close> matches the
  empty string.
\<close>

function finditer_from :: "atom list \<Rightarrow> str \<Rightarrow> nat \<Rightarrow> (nat \<times> nat) list" where
  "finditer_from p s pos =
     (if length s < pos then []
      else case match_here p (drop pos s) of
             None \<Rightarrow> finditer_from p s (pos + 1)
           | Some m \<Rightarrow>
               (pos, pos + m) #
                 (if m = 0 then finditer_from p s (pos + 1) else finditer_from p s (pos + m)))"
  by pat_completeness auto
termination
  by (relation "measure (\<lambda>(p, s, pos). length s + 1 - pos)") auto

declare finditer_from.simps [simp del]

definition finditer :: "atom list \<Rightarrow> str \<Rightarrow> (nat \<times> nat) list" where
  "finditer p s = finditer_from p s 0"

text \<open>
  The character classes. \<^verbatim>\<open>\d\<close> in a \<^verbatim>\<open>str\<close> pattern is the Unicode decimal digits
  (category Nd); the table is the interpreter's, so the class is a parameter \<open>digit\<close> of
  the model. The bracketed ranges are ranges of code points.
\<close>

definition is_char :: "char \<Rightarrow> codepoint \<Rightarrow> bool" where
  "is_char ch c = (c = of_char ch)"

definition in_range :: "char \<Rightarrow> char \<Rightarrow> codepoint \<Rightarrow> bool" where
  "in_range lo hi c = (of_char lo \<le> c \<and> c \<le> of_char hi)"

definition alnum :: "codepoint \<Rightarrow> bool" where
  "alnum c = (in_range CHR ''a'' CHR ''z'' c \<or> in_range CHR ''A'' CHR ''Z'' c
              \<or> in_range CHR ''0'' CHR ''9'' c)"

definition email_local_class :: "codepoint \<Rightarrow> bool" where
  "email_local_class c = (alnum c \<or> c \<in> set (ascii ''._%+-''))"

definition email_domain_class :: "codepoint \<Rightarrow> bool" where
  "email_domain_class c = (alnum c \<or> c \<in> set (ascii ''.-''))"

definition email_tld_class :: "codepoint \<Rightarrow> bool" where
  "email_tld_class c = (in_range CHR ''a'' CHR ''z'' c \<or> in_range CHR ''A'' CHR ''Z'' c)"

text \<open>The dictionary \<^verbatim>\<open>REGEX_PATTERNS\<close>, in its insertion order.\<close>

definition REGEX_PATTERNS :: "(codepoint \<Rightarrow> bool) \<Rightarrow> (str \<times> atom list) list" where
  "REGEX_PATTERNS digit =
     [(ascii ''id_card'',
         [(digit, 17, Some 17),
          (\<lambda>c. digit c \<or> is_char CHR ''X'' c \<or> is_char CHR ''x'' c, 1, Some 1)]),
      (ascii ''bank_card'',
         [(digit, 16, Some 19)]),
      (ascii ''phone'',
         [(is_char CHR ''1'', 1, Some 1), (in_range CHR ''3'' CHR ''9'', 1, Some 1),
          (digit, 9, Some 9)]),
      (ascii ''email'',
         [(email_local_class, 1, None), (is_char CHR ''@'', 1, Some 1),
          (email_domain_class, 1, None), (is_char CHR ''.'', 1, Some 1),
          (email_tld_class, 2, None)])]"

section \<open>recognition\_engine.py: \_regex\_recognition\<close>

text \<open>
  The inner loop \<^verbatim>\<open>for match in re.finditer(pattern, text)\<close> on the state
  \<^verbatim>\<open>(items, matched_positions)\<close>. The construction of the item can raise; the \<^verbatim>\<open>id\<close> of
  the item is a fresh UUID, here \<open>uuid4 n\<close> for the item made after \<open>n\<close> others.
\<close>

fun scan_matches ::
  "(nat \<Rightarrow> str) \<Rightarrow> str \<Rightarrow> str \<Rightarrow> (nat \<times> nat) list \<Rightarrow> SensitiveItem list \<times> nat set
     \<Rightarrow> error + SensitiveItem list \<times> nat set" where
  "scan_matches uuid4 dtype text [] st = Inr st"
| "scan_matches uuid4 dtype text ((start, end) # ms) st =
     (case st of (items, matched_positions) \<Rightarrow>
        let overlaps = list_ex (\<lambda>pos. pos \<in> matched_positions) [start..<end]
        in if \<not> overlaps then
             (case SensitiveItem_init (uuid4 (length items)) dtype
                     (take (end - start) (drop start text)) (int start) (int end) (Fin 1) of
                Inl e \<Rightarrow> Inl e
              | Inr item \<Rightarrow>
                  scan_matches uuid4 dtype text ms
                    (items @ [item], fold insert [start..<end] matched_positions))
           else scan_matches uuid4 dtype text ms st)"

text \<open>The outer loop \<^verbatim>\<open>for data_type, pattern in self.regex_patterns.items()\<close>.\<close>

fun scan_patterns ::
  "(nat \<Rightarrow> str) \<Rightarrow> str \<Rightarrow> (str \<times> atom list) list \<Rightarrow> SensitiveItem list \<times> nat set
     \<Rightarrow> error + SensitiveItem list \<times> nat set" where
  "scan_patterns uuid4 text [] st = Inr st"
| "scan_patterns uuid4 text ((dtype, pattern) # ps) st =
     (case scan_matches uuid4 dtype text (finditer pattern text) st of
        Inl e \<Rightarrow> Inl e
      | Inr st' \<Rightarrow> scan_patterns uuid4 text ps st')"

definition regex_recognition ::
  "(codepoint \<Rightarrow> bool) \<Rightarrow> (nat \<Rightarrow> str) \<Rightarrow> str \<Rightarrow> error + SensitiveItem list" where
  "regex_recognition digit uuid4 text =
     (case scan_patterns uuid4 text (REGEX_PATTERNS digit) ([], {}) of
        Inl e \<Rightarrow> Inl e
      | Inr (items, matched_positions) \<Rightarrow> Inr items)"

section \<open>recognition\_engine.py: \_deduplicate\<close>

text \<open>The overlap test of the inner loop of \<^verbatim>\<open>_deduplicate\<close>.\<close>

definition overlap :: "SensitiveItem \<Rightarrow> SensitiveItem \<Rightarrow> bool" where
  "overlap item existing =
     (\<not> (end_pos item \<le> start_pos existing \<or> start_pos item \<ge> end_pos existing))"

text \<open>
  The inner loop \<^verbatim>\<open>for i, existing in enumerate(deduplicated)\<close>. It stops at the first
  accepted item that overlaps the candidate (\<^verbatim>\<open>break\<close>); the result is \<open>None\<close> when the
  loop ends with \<^verbatim>\<open>overlaps\<close> still false, and otherwise the accepted list after the
  assignment to \<^verbatim>\<open>deduplicated[i]\<close>, if any.
\<close>

fun dedup_scan :: "SensitiveItem \<Rightarrow> SensitiveItem list \<Rightarrow> SensitiveItem list option" where
  "dedup_scan item [] = None"
| "dedup_scan item (existing # rest) =
     (if overlap item existing then
        Some (if float_gt (confidence item) (confidence existing) then item # rest
              else if float_eq (confidence item) (confidence existing) then
                (if float_eq (confidence item) (Fin 1) then item # rest else existing # rest)
              else existing # rest)
      else map_option (Cons existing) (dedup_scan item rest))"

text \<open>The body of the outer loop: one candidate against the accepted list.\<close>

definition dedup_step :: "SensitiveItem list \<Rightarrow> SensitiveItem \<Rightarrow> SensitiveItem list" where
  "dedup_step deduplicated item =
     (case dedup_scan item deduplicated of
        Some d \<Rightarrow> d
      | None \<Rightarrow> deduplicated @ [item])"

text \<open>
  \<^verbatim>\<open>sorted(items, key=lambda x: (x.start_pos, x.end_pos))\<close> is a stable sort on the
  lexicographically ordered pair, as \<open>sort_key\<close> is.
\<close>

definition deduplicate :: "SensitiveItem list \<Rightarrow> SensitiveItem list" where
  "deduplicate items =
     (if items = [] then []
      else foldl dedup_step [] (sort_key (\<lambda>x. (start_pos x, end_pos x)) items))"

section \<open>recognition\_engine.py: identify\_sensitive\_data\<close>

text \<open>
  The state of a \<^verbatim>\<open>RecognitionEngine\<close> is the field \<^verbatim>\<open>nlp_model\<close>, \<open>None\<close> until the
  model is loaded (\<^verbatim>\<open>regex_patterns\<close> is the constant above). The model is spaCy's, so
  \<^verbatim>\<open>_nlp_recognition\<close> is a parameter \<open>nlp_recognition\<close> of the model: on a state and a
  text it returns a list of items or raises, and it returns the new state.
\<close>

record 'm RecognitionEngine =
  nlp_model :: "'m option"

text \<open>
  \<^verbatim>\<open>_nlp_recognition\<close> runs only under \<^verbatim>\<open>if use_nlp\<close>. A \<^verbatim>\<open>RecognitionError\<close> is raised
  again; any other exception is logged and the items of the regular expressions are kept.
\<close>

definition identify_sensitive_data ::
  "(codepoint \<Rightarrow> bool) \<Rightarrow> (nat \<Rightarrow> str)
     \<Rightarrow> ('m RecognitionEngine \<Rightarrow> str \<Rightarrow> (error + SensitiveItem list) \<times> 'm RecognitionEngine)
     \<Rightarrow> 'm RecognitionEngine \<Rightarrow> str \<Rightarrow> bool
     \<Rightarrow> (error + SensitiveItem list) \<times> 'm RecognitionEngine" where
  "identify_sensitive_data digit uuid4 nlp_recognition self text use_nlp =
     (case regex_recognition digit uuid4 text of
        Inl e \<Rightarrow> (Inl e, self)
      | Inr regex_items \<Rightarrow>
          if use_nlp then
            (case nlp_recognition self text of
               (Inr nlp_items, self') \<Rightarrow> (Inr (deduplicate (regex_items @ nlp_items)), self')
             | (Inl RecognitionError, self') \<Rightarrow> (Inl RecognitionError, self')
             | (Inl e, self') \<Rightarrow> (Inr (deduplicate regex_items), self'))
          else (Inr (deduplicate regex_items), self))"

section \<open>desensitization\_processor.py: the strategies\<close>

text \<open>The dataclass \<^verbatim>\<open>DesensitizationRule\<close>; \<^verbatim>\<open>id\<close> and \<^verbatim>\<open>name\<close> are \<open>rule_id\<close>, \<open>rule_name\<close>.\<close>

record DesensitizationRule =
  rule_id :: str
  rule_name :: str
  data_type :: str
  strategy :: str
  enabled :: bool

text \<open>The characters \<^verbatim>\<open>*\<close>, \<^verbatim>\<open>@\<close>, \<^verbatim>\<open>:\<close> and the newline.\<close>

definition star :: codepoint where "star = 42"
definition at_sign :: codepoint where "at_sign = 64"
definition colon :: codepoint where "colon = 58"
definition newline :: codepoint where "newline = 10"

text \<open>
  The character classes of \<^verbatim>\<open>_mask_address\<close>: \<^verbatim>\<open>[\<close>U+7701 U+5E02\<^verbatim>\<open>]\<close> (province,
  municipality) and \<^verbatim>\<open>[\<close>U+5E02 U+533A U+53BF\<^verbatim>\<open>]\<close> (city, district, county).
\<close>

definition province_class :: "codepoint \<Rightarrow> bool" where
  "province_class c = (c = 30465 \<or> c = 24066)"

definition city_class :: "codepoint \<Rightarrow> bool" where
  "city_class c = (c = 24066 \<or> c = 21306 \<or> c = 21439)"

text \<open>
  \<^verbatim>\<open>re.match\<close> of a lazy \<^verbatim>\<open>.*?\<close> followed by one character of a class, at the head of
  the string: the number of characters matched. The lazy star takes the fewest characters
  it can, and \<^verbatim>\<open>.\<close> does not match a newline.
\<close>

fun lazy_find :: "(codepoint \<Rightarrow> bool) \<Rightarrow> str \<Rightarrow> nat option" where
  "lazy_find cls [] = None"
| "lazy_find cls (c # cs) =
     (if cls c then Some 1
      else if c = newline then None
      else map_option Suc (lazy_find cls cs))"

text \<open>
  \<^verbatim>\<open>re.match\<close> of the first pattern of \<^verbatim>\<open>_mask_address\<close>, a lazy star and a province
  character, then a lazy star and a city character. When no city character follows a
  province character, the first lazy star backtracks and takes one character more.
\<close>

fun match_province_city :: "str \<Rightarrow> nat option" where
  "match_province_city [] = None"
| "match_province_city (c # cs) =
     (case (if province_class c then lazy_find city_class cs else None) of
        Some n \<Rightarrow> Some (Suc n)
      | None \<Rightarrow> if c = newline then None else map_option Suc (match_province_city cs))"

definition mask_address :: "str \<Rightarrow> str" where
  "mask_address address =
     (case match_province_city address of
        Some n \<Rightarrow> take n address @ replicate 6 star
      | None \<Rightarrow>
          (case lazy_find city_class address of
             Some n \<Rightarrow> take n address @ replicate 6 star
           | None \<Rightarrow>
               if length address > 6 then slice_to address 6 @ replicate 6 star
               else replicate 6 star))"

text \<open>\<^verbatim>\<open>email.split('@', 1)\<close> cuts at the first \<^verbatim>\<open>@\<close>.\<close>

definition mask_email :: "str \<Rightarrow> str" where
  "mask_email email =
     (if at_sign \<notin> set email then email
      else
        let username = takeWhile (\<lambda>c. c \<noteq> at_sign) email;
            domain = tl (dropWhile (\<lambda>c. c \<noteq> at_sign) email);
            masked_username = (if length username \<le> 1 then [star]
                               else hd username # replicate 3 star)
        in masked_username @ [at_sign] @ domain)"

definition MaskStrategy_apply :: "str \<Rightarrow> str \<Rightarrow> str" where
  "MaskStrategy_apply val dtype =
     (if val = [] then val
      else if dtype = ascii ''name'' then
        (if length val \<le> 1 then val
         else hd val # replicate (length val - 1) star)
      else if dtype = ascii ''id_card'' then
        (if length val < 18 then val
         else slice_to val 6 @ replicate 8 star @ slice_from val (- 4))
      else if dtype = ascii ''phone'' then
        (if length val < 11 then val
         else slice_to val 3 @ replicate 4 star @ slice_from val (- 4))
      else if dtype = ascii ''address'' then mask_address val
      else if dtype = ascii ''bank_card'' then
        (if length val < 8 then val
         else slice_to val 4 @ replicate (length val - 8) star @ slice_from val (- 4))
      else if dtype = ascii ''email'' then mask_email val
      else
        (if length val \<le> 2 then replicate (length val) star
         else hd val # replicate (length val - 2) star @ [last val]))"

text \<open>The dictionary \<^verbatim>\<open>PLACEHOLDERS\<close>: a bracketed Chinese word for each category.\<close>

definition PLACEHOLDERS :: "(str \<times> str) list" where
  "PLACEHOLDERS =
     [(ascii ''name'', [91, 22995, 21517, 93]),
      (ascii ''id_card'', [91, 36523, 20221, 35777, 93]),
      (ascii ''phone'', [91, 30005, 35805, 93]),
      (ascii ''address'', [91, 22320, 22336, 93]),
      (ascii ''bank_card'', [91, 38134, 34892, 21345, 93]),
      (ascii ''email'', [91, 37038, 31665, 93])]"

definition ReplaceStrategy_apply :: "str \<Rightarrow> str \<Rightarrow> str" where
  "ReplaceStrategy_apply val dtype =
     (case map_of PLACEHOLDERS dtype of
        Some p \<Rightarrow> p
      | None \<Rightarrow> [91, 25935, 24863, 20449, 24687, 93])"

definition DeleteStrategy_apply :: "str \<Rightarrow> str \<Rightarrow> str" where
  "DeleteStrategy_apply val dtype = []"

section \<open>desensitization\_processor.py: DesensitizationProcessor\<close>

text \<open>
  The dictionary \<^verbatim>\<open>self.strategies\<close> set up by \<^verbatim>\<open>__init__\<close>, read with \<^verbatim>\<open>.get\<close>: a
  strategy object is its \<^verbatim>\<open>apply\<close> method, and an unknown name gives \<open>None\<close>.
\<close>

definition strategies :: "str \<Rightarrow> (str \<Rightarrow> str \<Rightarrow> str) option" where
  "strategies =
     map_of [(ascii ''mask'', MaskStrategy_apply),
             (ascii ''replace'', ReplaceStrategy_apply),
             (ascii ''delete'', DeleteStrategy_apply)]"

fun find_rule :: "str \<Rightarrow> DesensitizationRule list \<Rightarrow> DesensitizationRule option" where
  "find_rule dtype [] = None"
| "find_rule dtype (rule # rules) =
     (if data_type rule = dtype \<and> enabled rule then Some rule else find_rule dtype rules)"

text \<open>The f-string \<^verbatim>\<open>f"{item.type}:{item.value}"\<close>.\<close>

definition cache_key :: "SensitiveItem \<Rightarrow> str" where
  "cache_key item = item_type item @ [colon] @ item_value item"

text \<open>
  The body of the loop of \<^verbatim>\<open>process\<close> on the state \<^verbatim>\<open>(result, value_mapping)\<close>. Beside
  the new state it returns \<^verbatim>\<open>new_value\<close>, the replacement it spliced in, or \<open>None\<close> when
  the item was skipped (no enabled rule, or a rule whose strategy name is unknown).
\<close>

definition process_item ::
  "DesensitizationRule list \<Rightarrow> str \<times> (str \<rightharpoonup> str) \<Rightarrow> SensitiveItem
     \<Rightarrow> str option \<times> (str \<times> (str \<rightharpoonup> str))" where
  "process_item rules st item =
     (case st of (result, value_mapping) \<Rightarrow>
        (case find_rule (item_type item) rules of
           None \<Rightarrow> (None, st)
         | Some rule \<Rightarrow>
             if enabled rule then
               (case strategies (strategy rule) of
                  None \<Rightarrow> (None, st)
                | Some strategy_apply \<Rightarrow>
                    let (new_value, value_mapping') =
                          (case value_mapping (cache_key item) of
                             Some cached \<Rightarrow> (cached, value_mapping)
                           | None \<Rightarrow>
                               let nv = strategy_apply (item_value item) (item_type item)
                               in (nv, value_mapping(cache_key item \<mapsto> nv)))
                    in (Some new_value,
                        (slice_to result (start_pos item) @ new_value
                           @ slice_from result (end_pos item),
                         value_mapping')))
             else (None, st)))"

definition process_step ::
  "DesensitizationRule list \<Rightarrow> str \<times> (str \<rightharpoonup> str) \<Rightarrow> SensitiveItem \<Rightarrow> str \<times> (str \<rightharpoonup> str)" where
  "process_step rules st item = snd (process_item rules st item)"

text \<open>
  \<^verbatim>\<open>sorted(xs, key=..., reverse=True)\<close>: descending, and items with equal keys keep their
  original order (the list is reversed, sorted stably and reversed again).
\<close>

definition sorted_reverse :: "('a \<Rightarrow> int) \<Rightarrow> 'a list \<Rightarrow> 'a list" where
  "sorted_reverse key xs = rev (sort_key key (rev xs))"

definition process :: "str \<Rightarrow> SensitiveItem list \<Rightarrow> DesensitizationRule list \<Rightarrow> str" where
  "process text sensitive_items rules =
     (if text = [] \<or> sensitive_items = [] then text
      else fst (foldl (process_step rules) (text, Map.empty)
                  (sorted_reverse start_pos sensitive_items)))"

text \<open>
  The replacements that one call of \<^verbatim>\<open>process\<close> produces, in the order of the loop: each
  spliced item with its \<^verbatim>\<open>new_value\<close>. This is the loop of \<open>process\<close> with a log added.
\<close>

fun replacements ::
  "DesensitizationRule list \<Rightarrow> str \<times> (str \<rightharpoonup> str) \<Rightarrow> SensitiveItem list
     \<Rightarrow> (SensitiveItem \<times> str) list" where
  "replacements rules st [] = []"
| "replacements rules st (item # items) =
     (case fst (process_item rules st item) of
        None \<Rightarrow> replacements rules (process_step rules st item) items
      | Some new_value \<Rightarrow> (item, new_value) # replacements rules (process_step rules st item) items)"

definition process_replacements ::
  "str \<Rightarrow> SensitiveItem list \<Rightarrow> DesensitizationRule list \<Rightarrow> (SensitiveItem \<times> str) list" where
  "process_replacements text sensitive_items rules =
     (if text = [] \<or> sensitive_items = [] then []
      else replacements rules (text, Map.empty) (sorted_reverse start_pos sensitive_items))"

section \<open>Auxiliary notions for the statements\<close>

text \<open>A list of spans in which no earlier span overlaps a later one.\<close>

fun nonoverlapping :: "SensitiveItem list \<Rightarrow> bool" where
  "nonoverlapping [] = True"
| "nonoverlapping (x # xs) = ((\<forall>y\<in>set xs. \<not> overlap x y) \<and> nonoverlapping xs)"

text \<open>A concrete span with an empty id, for the examples.\<close>

definition mk_item :: "string \<Rightarrow> string \<Rightarrow> int \<Rightarrow> int \<Rightarrow> pyfloat \<Rightarrow> SensitiveItem" where
  "mk_item t v s e c = \<lparr>item_id = [], item_type = ascii t, item_value = ascii v,
                      start_pos = s, end_pos = e, confidence = c\<rparr>"

text \<open>A concrete rule with an empty id and name, for the examples.\<close>

definition mk_rule :: "string \<Rightarrow> string \<Rightarrow> bool \<Rightarrow> DesensitizationRule" where
  "mk_rule t s en = \<lparr>rule_id = [], rule_name = [], data_type = ascii t, strategy = ascii s,
                   enabled = en\<rparr>"

text \<open>
  A span whose category resolves to a rule that carries a strategy name other than
  \<^verbatim>\<open>mask\<close>, \<^verbatim>\<open>replace\<close> and \<^verbatim>\<open>delete\<close>.
\<close>

definition unknown_strategy :: "DesensitizationRule list \<Rightarrow> SensitiveItem \<Rightarrow> bool" where
  "unknown_strategy rules item =
     (case find_rule (item_type item) rules of
        None \<Rightarrow> False
      | Some r \<Rightarrow> strategy r \<notin> set [ascii ''mask'', ascii ''replace'', ascii ''delete''])"

text \<open>The ASCII digits, the part of the class \<^verbatim>\<open>\d\<close> that the examples use.\<close>

definition ascii_digit :: "codepoint \<Rightarrow> bool" where
  "ascii_digit c = in_range CHR ''0'' CHR ''9'' c"

text \<open>The least number of characters that a pattern matches.\<close>

definition min_len :: "atom list \<Rightarrow> nat" where
  "min_len p = sum_list (map (\<lambda>a. fst (snd a)) p)"

text \<open>
  The invariant of the nested loop of \<^verbatim>\<open>_regex_recognition\<close>: the items emitted so far
  do not overlap, each covers at least one position from 0 on, and every position that an
  item covers is in \<^verbatim>\<open>matched_positions\<close>.
\<close>

definition scan_inv :: "SensitiveItem list \<times> nat set \<Rightarrow> bool" where
  "scan_inv st = (case st of (items, matched) \<Rightarrow>
      nonoverlapping items
    \<and> (\<forall>x\<in>set items. 0 \<le> start_pos x \<and> start_pos x < end_pos x)
    \<and> (\<forall>x\<in>set items. \<forall>p. start_pos x \<le> int p \<and> int p < end_pos x \<longrightarrow> p \<in> matched))"


text \<open>
  Spans in the order in which \<^verbatim>\<open>process\<close> handles them, from the right end of the text
  to the left: each span has \<open>start \<le> end\<close>, the first ends at or before \<open>hi\<close>, each
  further one ends at or before the start of the one before it, and the last starts at 0
  or later.
\<close>

fun spans_in_order :: "int \<Rightarrow> SensitiveItem list \<Rightarrow> bool" where
  "spans_in_order hi [] = (0 \<le> hi)"
| "spans_in_order hi (item # items) =
     (start_pos item \<le> end_pos item \<and> end_pos item \<le> hi \<and> spans_in_order (start_pos item) items)"


text \<open>
  The value \<open>v\<close> straddles the boundary between \<open>l\<close> and \<open>r\<close>: it can be cut into two
  non-empty parts, the first an end of \<open>l\<close> and the second a start of \<open>r\<close>.
\<close>

definition straddles :: "'a list \<Rightarrow> 'a list \<Rightarrow> 'a list \<Rightarrow> bool" where
  "straddles v l r = list_ex (\<lambda>k. suffix (take k v) l \<and> prefix (drop k v) r) [1..<length v]"



section \<open>The deduplicator keeps no overlapping pair\<close>

lemma overlap_sym: "overlap a b = overlap b a"
  by (auto simp: overlap_def)

lemma overlap_common:
  "overlap c a \<Longrightarrow> overlap c b \<Longrightarrow> start_pos a \<le> start_pos c \<Longrightarrow> start_pos b \<le> start_pos c
   \<Longrightarrow> overlap a b"
  by (auto simp: overlap_def)

lemma dedup_scan_None:
  "dedup_scan item acc = None \<Longrightarrow> \<forall>a\<in>set acc. \<not> overlap item a"
  by (induction acc) (auto split: if_splits)

lemma dedup_scan_Some:
  "dedup_scan item acc = Some acc' \<Longrightarrow> nonoverlapping acc
   \<Longrightarrow> \<forall>a\<in>set acc. start_pos a \<le> start_pos item
   \<Longrightarrow> nonoverlapping acc' \<and> set acc' \<subseteq> insert item (set acc)"
proof (induction acc arbitrary: acc')
  case Nil
  then show ?case by simp
next
  case (Cons existing rest)
  show ?case
  proof (cases "overlap item existing")
    case True
    have no: "\<forall>y\<in>set rest. \<not> overlap item y"
    proof
      fix y assume y: "y \<in> set rest"
      show "\<not> overlap item y"
      proof
        assume "overlap item y"
        with True Cons.prems(3) y have "overlap existing y"
          by (auto intro: overlap_common)
        with Cons.prems(2) y show False by simp
      qed
    qed
    from True Cons.prems(1) have "acc' = item # rest \<or> acc' = existing # rest"
      by (auto split: if_splits)
    with no Cons.prems(2) show ?thesis by auto
  next
    case False
    with Cons.prems(1) obtain r where r: "dedup_scan item rest = Some r" "acc' = existing # r"
      by auto
    from Cons.IH[OF r(1)] Cons.prems have ih: "nonoverlapping r" "set r \<subseteq> insert item (set rest)"
      by auto
    have "\<forall>y\<in>set r. \<not> overlap existing y"
    proof
      fix y assume "y \<in> set r"
      with ih(2) have "y = item \<or> y \<in> set rest" by auto
      then show "\<not> overlap existing y"
        using False Cons.prems(2) by (auto simp: overlap_sym)
    qed
    with ih r show ?thesis by auto
  qed
qed

lemma nonoverlapping_snoc:
  "nonoverlapping (xs @ [x]) = (nonoverlapping xs \<and> (\<forall>y\<in>set xs. \<not> overlap y x))"
  by (induction xs) auto

lemma dedup_step_inv:
  assumes "nonoverlapping acc" "\<forall>a\<in>set acc. start_pos a \<le> start_pos item"
  shows "nonoverlapping (dedup_step acc item) \<and> set (dedup_step acc item) \<subseteq> insert item (set acc)"
proof (cases "dedup_scan item acc")
  case None
  from dedup_scan_None[OF None] assms show ?thesis
    by (auto simp: dedup_step_def None nonoverlapping_snoc overlap_sym)
next
  case (Some d)
  from dedup_scan_Some[OF Some assms] show ?thesis
    by (simp add: dedup_step_def Some)
qed

lemma foldl_dedup_inv:
  "nonoverlapping acc \<Longrightarrow> sorted (map start_pos xs)
   \<Longrightarrow> \<forall>a\<in>set acc. \<forall>x\<in>set xs. start_pos a \<le> start_pos x
   \<Longrightarrow> nonoverlapping (foldl dedup_step acc xs)"
proof (induction xs arbitrary: acc)
  case Nil
  then show ?case by simp
next
  case (Cons x xs)
  from Cons.prems have st: "nonoverlapping (dedup_step acc x)"
    and sub: "set (dedup_step acc x) \<subseteq> insert x (set acc)"
    using dedup_step_inv[of acc x] by auto
  have "\<forall>a\<in>set (dedup_step acc x). \<forall>y\<in>set xs. start_pos a \<le> start_pos y"
    using sub Cons.prems(2,3) by auto
  with Cons.IH[OF st] Cons.prems(2) show ?case by simp
qed

lemma sorted_key_start_pos:
  "sorted (map (\<lambda>x. (start_pos x, end_pos x)) xs) \<Longrightarrow> sorted (map start_pos xs)"
  by (induction xs) (auto simp: less_eq_prod_def)

lemma sorted_start_pos:
  "sorted (map start_pos (sort_key (\<lambda>x. (start_pos x, end_pos x)) items))"
  by (rule sorted_key_start_pos) (rule sorted_sort_key)

lemma nonoverlapping_deduplicate: "nonoverlapping (deduplicate items)"
  unfolding deduplicate_def using foldl_dedup_inv[OF _ sorted_start_pos] by simp

lemma nonoverlapping_nth:
  "nonoverlapping xs \<Longrightarrow> i < j \<Longrightarrow> j < length xs \<Longrightarrow> \<not> overlap (xs ! i) (xs ! j)"
proof (induction xs arbitrary: i j)
  case Nil then show ?case by simp
next
  case (Cons x xs)
  from Cons.prems(2) obtain j' where j: "j = Suc j'" by (cases j) auto
  show ?case
  proof (cases i)
    case 0
    with Cons.prems j show ?thesis by auto
  next
    case (Suc i')
    with Cons.prems j have "\<not> overlap (xs ! i') (xs ! j')"
      by (intro Cons.IH) auto
    with Suc j show ?thesis by simp
  qed
qed

text \<open>
  Claim C1. For every input list, no two spans at distinct positions of the output of
  \<open>deduplicate\<close> overlap: one of them ends at or before the start of the other. Nothing is
  assumed of the input spans.
\<close>

theorem deduplicate_no_overlap:
  "\<forall>i j. i < length (deduplicate items) \<and> j < length (deduplicate items) \<and> i \<noteq> j \<longrightarrow>
      end_pos (deduplicate items ! i) \<le> start_pos (deduplicate items ! j)
    \<or> start_pos (deduplicate items ! i) \<ge> end_pos (deduplicate items ! j)"
proof (intro allI impI)
  fix i j
  assume h: "i < length (deduplicate items) \<and> j < length (deduplicate items) \<and> i \<noteq> j"
  let ?d = "deduplicate items"
  have n: "nonoverlapping ?d" by (rule nonoverlapping_deduplicate)
  from h consider "i < j" | "j < i" by linarith
  then have "\<not> overlap (?d ! i) (?d ! j)"
  proof cases
    case 1 with n h show ?thesis using nonoverlapping_nth by blast
  next
    case 2 with n h have "\<not> overlap (?d ! j) (?d ! i)" using nonoverlapping_nth by blast
    then show ?thesis by (simp add: overlap_sym)
  qed
  then show "end_pos (?d ! i) \<le> start_pos (?d ! j) \<or> start_pos (?d ! i) \<ge> end_pos (?d ! j)"
    by (simp add: overlap_def)
qed

text \<open>
  An instance: a name found by the extractor overlaps a phone number and is dropped; the
  two spans that remain do not overlap.
\<close>

theorem deduplicate_no_overlap_witness:
  "length (deduplicate [mk_item ''name'' ''bcdefg'' 2 8 (Fin 0.8), mk_item ''phone'' ''abcde'' 0 5 (Fin 1),
                        mk_item ''email'' ''ijk'' 8 11 (Fin 1)]) = 2
   \<and> (end_pos (deduplicate [mk_item ''name'' ''bcdefg'' 2 8 (Fin 0.8), mk_item ''phone'' ''abcde'' 0 5 (Fin 1),
                        mk_item ''email'' ''ijk'' 8 11 (Fin 1)] ! 0)
      \<le> start_pos (deduplicate [mk_item ''name'' ''bcdefg'' 2 8 (Fin 0.8), mk_item ''phone'' ''abcde'' 0 5 (Fin 1),
                        mk_item ''email'' ''ijk'' 8 11 (Fin 1)] ! 1)
     \<or> start_pos (deduplicate [mk_item ''name'' ''bcdefg'' 2 8 (Fin 0.8), mk_item ''phone'' ''abcde'' 0 5 (Fin 1),
                        mk_item ''email'' ''ijk'' 8 11 (Fin 1)] ! 0)
      \<ge> end_pos (deduplicate [mk_item ''name'' ''bcdefg'' 2 8 (Fin 0.8), mk_item ''phone'' ''abcde'' 0 5 (Fin 1),
                        mk_item ''email'' ''ijk'' 8 11 (Fin 1)] ! 1))"
proof -
  let ?xs = "[mk_item ''name'' ''bcdefg'' 2 8 (Fin 0.8), mk_item ''phone'' ''abcde'' 0 5 (Fin 1),
              mk_item ''email'' ''ijk'' 8 11 (Fin 1)]"
  have len: "length (deduplicate ?xs) = 2"
    by (simp add: deduplicate_def dedup_step_def mk_item_def overlap_def)
  with deduplicate_no_overlap[of ?xs] show ?thesis by simp
qed

section \<open>Ties in the deduplicator\<close>

lemma float_eq_not_gt: "float_eq a b \<Longrightarrow> \<not> float_gt a b"
  by (cases a; cases b) auto

lemma dedup_scan_first_overlap:
  "\<forall>p\<in>set pre. \<not> overlap item p \<Longrightarrow> overlap item existing \<Longrightarrow>
   dedup_scan item (pre @ existing # post) =
     Some (pre @ (if float_gt (confidence item) (confidence existing) then item
                  else if float_eq (confidence item) (confidence existing)
                          \<and> float_eq (confidence item) (Fin 1) then item
                  else existing) # post)"
  by (induction pre) auto

text \<open>
  Claim C3, as the code has it. The candidate meets its first overlapping accepted span
  \<open>existing\<close> with an equal confidence. When that confidence is exactly 1.0 the candidate
  replaces \<open>existing\<close> in place; for every other value the accepted list is unchanged and
  the candidate is dropped.
\<close>

theorem dedup_tie_break:
  assumes "\<forall>p\<in>set pre. \<not> overlap item p" and "overlap item existing"
    and "float_eq (confidence item) (confidence existing)"
  shows "dedup_step (pre @ existing # post) item =
           (if confidence item = Fin 1 then pre @ item # post else pre @ existing # post)"
proof -
  from assms(3) have ng: "\<not> float_gt (confidence item) (confidence existing)"
    by (rule float_eq_not_gt)
  have "float_eq (confidence item) (Fin 1) = (confidence item = Fin 1)"
    by (cases "confidence item") auto
  with ng assms show ?thesis
    by (simp add: dedup_step_def dedup_scan_first_overlap)
qed

text \<open>Both cases of the tie at concrete spans: 0.8 against 0.8, and 1.0 against 1.0.\<close>

theorem dedup_tie_break_witness:
  "dedup_step [mk_item ''phone'' ''abc'' 0 3 (Fin 1), mk_item ''name'' ''defgh'' 3 8 (Fin 0.8)]
              (mk_item ''address'' ''fghij'' 5 10 (Fin 0.8))
     = [mk_item ''phone'' ''abc'' 0 3 (Fin 1), mk_item ''name'' ''defgh'' 3 8 (Fin 0.8)]
   \<and> dedup_step [mk_item ''phone'' ''abc'' 0 3 (Fin 1), mk_item ''bank_card'' ''defgh'' 3 8 (Fin 1)]
              (mk_item ''email'' ''fghij'' 5 10 (Fin 1))
     = [mk_item ''phone'' ''abc'' 0 3 (Fin 1), mk_item ''email'' ''fghij'' 5 10 (Fin 1)]"
  using dedup_tie_break[of "[mk_item ''phone'' ''abc'' 0 3 (Fin 1)]"
          "mk_item ''address'' ''fghij'' 5 10 (Fin 0.8)" "mk_item ''name'' ''defgh'' 3 8 (Fin 0.8)" "[]"]
        dedup_tie_break[of "[mk_item ''phone'' ''abc'' 0 3 (Fin 1)]"
          "mk_item ''email'' ''fghij'' 5 10 (Fin 1)" "mk_item ''bank_card'' ''defgh'' 3 8 (Fin 1)" "[]"]
  by (simp add: mk_item_def overlap_def)

text \<open>
  Claim C3 as stated fails when both confidences are 1.0: the accepted span is replaced by
  the candidate and does not appear in the output.
\<close>

theorem dedup_tie_keeps_accepted_counterexample:
  "overlap (mk_item ''bank_card'' ''defgh'' 3 8 (Fin 1)) (mk_item ''id_card'' ''abcde'' 0 5 (Fin 1))
   \<and> float_eq (confidence (mk_item ''bank_card'' ''defgh'' 3 8 (Fin 1)))
               (confidence (mk_item ''id_card'' ''abcde'' 0 5 (Fin 1)))
   \<and> deduplicate [mk_item ''id_card'' ''abcde'' 0 5 (Fin 1), mk_item ''bank_card'' ''defgh'' 3 8 (Fin 1)]
       = [mk_item ''bank_card'' ''defgh'' 3 8 (Fin 1)]
   \<and> mk_item ''id_card'' ''abcde'' 0 5 (Fin 1)
       \<notin> set (deduplicate [mk_item ''id_card'' ''abcde'' 0 5 (Fin 1), mk_item ''bank_card'' ''defgh'' 3 8 (Fin 1)])"
  by (simp add: deduplicate_def dedup_step_def mk_item_def overlap_def ascii_def)

section \<open>Construction of a span\<close>

text \<open>
  Claim C5, as the code has it. The construction raises \<^verbatim>\<open>ValueError\<close> when the end is
  strictly before the start, and returns the span in every other case, equal bounds
  included.
\<close>

theorem SensitiveItem_init_check:
  "(e < s \<longrightarrow> SensitiveItem_init i t v s e c = Inl ValueError)
   \<and> (s \<le> e \<longrightarrow> SensitiveItem_init i t v s e c =
         Inr \<lparr>item_id = i, item_type = t, item_value = v, start_pos = s, end_pos = e, confidence = c\<rparr>)"
  by (simp add: SensitiveItem_init_def)

text \<open>The two cases at concrete bounds.\<close>

theorem SensitiveItem_init_check_witness:
  "SensitiveItem_init [] (ascii ''phone'') (ascii ''x'') 5 4 (Fin 1) = Inl ValueError
   \<and> SensitiveItem_init [] (ascii ''phone'') [] 5 5 (Fin 1) =
       Inr \<lparr>item_id = [], item_type = ascii ''phone'', item_value = [], start_pos = 5, end_pos = 5,
             confidence = Fin 1\<rparr>"
  using SensitiveItem_init_check[of 4 5 "[]" "ascii ''phone''" "ascii ''x''" "Fin 1"]
        SensitiveItem_init_check[of 5 5 "[]" "ascii ''phone''" "[]" "Fin 1"]
  by simp

text \<open>
  Claim C5 as stated fails at equal bounds: the construction returns a span, as it does
  for the default values of the dataclass.
\<close>

theorem SensitiveItem_init_equal_bounds_counterexample:
  "(5::int) \<le> 5 \<and> SensitiveItem_init [] (ascii ''phone'') [] 5 5 (Fin 1) \<noteq> Inl ValueError
   \<and> SensitiveItem_init [] [] [] 0 0 (Fin 1) =
       Inr \<lparr>item_id = [], item_type = [], item_value = [], start_pos = 0, end_pos = 0,
             confidence = Fin 1\<rparr>"
  by (simp add: SensitiveItem_init_def)

section \<open>Concrete values for the examples\<close>

lemma replicate_3: "replicate 3 x = [x, x, x]"
  and replicate_4: "replicate 4 x = [x, x, x, x]"
  and replicate_6: "replicate 6 x = [x, x, x, x, x, x]"
  and replicate_8: "replicate 8 x = [x, x, x, x, x, x, x, x]"
  by (simp_all add: numeral_eq_Suc)

lemma mk_item_sel:
  "item_type (mk_item t v s e c) = ascii t" "item_value (mk_item t v s e c) = ascii v"
  "start_pos (mk_item t v s e c) = s" "end_pos (mk_item t v s e c) = e"
  "confidence (mk_item t v s e c) = c"
  by (simp_all add: mk_item_def)

lemma mk_rule_sel:
  "data_type (mk_rule t s en) = ascii t" "strategy (mk_rule t s en) = ascii s"
  "enabled (mk_rule t s en) = en"
  by (simp_all add: mk_rule_def)

lemma strategies_known:
  "strategies (ascii ''mask'') = Some MaskStrategy_apply"
  "strategies (ascii ''replace'') = Some ReplaceStrategy_apply"
  "strategies (ascii ''delete'') = Some DeleteStrategy_apply"
  by (simp_all add: strategies_def ascii_def)

lemma mask_phone_example:
  "MaskStrategy_apply (ascii ''13812345678'') (ascii ''phone'') = ascii ''138****5678''"
  by (simp add: MaskStrategy_apply_def ascii_def slice_to_def slice_from_def replicate_4 star_def)

section \<open>Lengths of masked values\<close>

lemma length_slice_to: "0 \<le> i \<Longrightarrow> nat i \<le> length s \<Longrightarrow> length (slice_to s i) = nat i"
  by (simp add: slice_to_def)

lemma length_slice_from_neg: "i < 0 \<Longrightarrow> nat (- i) \<le> length s \<Longrightarrow> length (slice_from s i) = nat (- i)"
  by (auto simp: slice_from_def)

lemma ascii_names_distinct:
  "ascii ''id_card'' \<noteq> ascii ''name''" "ascii ''phone'' \<noteq> ascii ''name''"
  "ascii ''phone'' \<noteq> ascii ''id_card''" "ascii ''bank_card'' \<noteq> ascii ''name''"
  "ascii ''bank_card'' \<noteq> ascii ''id_card''" "ascii ''bank_card'' \<noteq> ascii ''phone''"
  "ascii ''bank_card'' \<noteq> ascii ''address''"
  by (simp_all add: ascii_def)

text \<open>
  Claim C4, as the code has it. When the value meets the scheme's minimum length, Mask
  gives a string of length 18 for an ID card, of length 11 for a phone number, and of the
  length of the value for a bank card. So the length is preserved for every bank card, for
  an ID card of exactly 18 characters and for a phone number of exactly 11.
\<close>

theorem mask_fixed_width_length:
  "(18 \<le> length v \<longrightarrow> length (MaskStrategy_apply v (ascii ''id_card'')) = 18)
   \<and> (11 \<le> length v \<longrightarrow> length (MaskStrategy_apply v (ascii ''phone'')) = 11)
   \<and> (8 \<le> length v \<longrightarrow> length (MaskStrategy_apply v (ascii ''bank_card'')) = length v)"
  by (auto simp: MaskStrategy_apply_def ascii_names_distinct length_slice_to length_slice_from_neg)

text \<open>The three schemes at values that meet their minimum.\<close>

theorem mask_fixed_width_length_witness:
  "length (MaskStrategy_apply (ascii ''110101199001011234'') (ascii ''id_card'')) = 18
   \<and> length (MaskStrategy_apply (ascii ''13812345678'') (ascii ''phone'')) = 11
   \<and> length (MaskStrategy_apply (ascii ''6222021234567890123'') (ascii ''bank_card'')) = 19"
  using mask_fixed_width_length[of "ascii ''110101199001011234''"]
        mask_fixed_width_length[of "ascii ''13812345678''"]
        mask_fixed_width_length[of "ascii ''6222021234567890123''"]
  by (simp add: ascii_def)

text \<open>
  Claim C4 as stated fails for an ID card of 19 characters: the masked value keeps 6 and 4
  characters around 8 stars and has length 18.
\<close>

theorem mask_id_card_length_counterexample:
  "18 \<le> length (ascii ''1101011990010112345'')
   \<and> length (MaskStrategy_apply (ascii ''1101011990010112345'') (ascii ''id_card''))
       \<noteq> length (ascii ''1101011990010112345'')
   \<and> MaskStrategy_apply (ascii ''1101011990010112345'') (ascii ''id_card'')
       = ascii ''110101********2345''"
  by (simp add: MaskStrategy_apply_def ascii_def slice_to_def slice_from_def star_def eval_nat_numeral)

section \<open>A disabled rule changes nothing\<close>

text \<open>
  Claim C9. With one span and a rule list whose only rule has the category of the span and
  is disabled, \<open>process\<close> returns the text unchanged.
\<close>

theorem process_disabled_rule:
  assumes "data_type r = item_type s" and "\<not> enabled r"
  shows "process text [s] [r] = text"
  using assms
  by (simp add: process_def sorted_reverse_def process_step_def process_item_def)

text \<open>A phone number under a disabled Mask rule.\<close>

theorem process_disabled_rule_witness:
  "process (ascii ''call 13812345678 now'') [mk_item ''phone'' ''13812345678'' 5 16 (Fin 1)]
           [mk_rule ''phone'' ''mask'' False] = ascii ''call 13812345678 now''"
  using process_disabled_rule[of "mk_rule ''phone'' ''mask'' False" "mk_item ''phone'' ''13812345678'' 5 16 (Fin 1)"
          "ascii ''call 13812345678 now''"]
  by (simp add: mk_rule_def mk_item_def)

section \<open>A rule with an unknown strategy name is skipped\<close>

lemma strategies_None:
  "name \<notin> set [ascii ''mask'', ascii ''replace'', ascii ''delete''] \<Longrightarrow> strategies name = None"
  by (simp add: strategies_def)

lemma process_item_unknown:
  "unknown_strategy rules item \<Longrightarrow> process_item rules st item = (None, st)"
  by (cases st) (auto simp: unknown_strategy_def process_item_def strategies_None split: option.splits)

lemma foldl_skip_filter:
  "(\<And>x st. \<not> P x \<Longrightarrow> f st x = st) \<Longrightarrow> foldl f st (filter P xs) = foldl f st xs"
  by (induction xs arbitrary: st) auto

lemma sorted_reverse_filter:
  "sorted_reverse key (filter P xs) = filter P (sorted_reverse key xs)"
proof -
  have "filter P (rev (sort_key key (rev xs))) = rev (sort_key key (filter P (rev xs)))"
    by (simp add: rev_filter[symmetric] filter_sort)
  then show ?thesis by (simp add: sorted_reverse_def rev_filter)
qed

text \<open>
  Claim C10. \<open>process\<close> is a total function, so it raises nothing. A span whose resolved
  enabled rule carries a strategy name other than mask, replace and delete leaves the state
  of the loop, the working text included, exactly as it was; such spans can be removed
  from the input without changing the output; and when every span is of this kind the
  output is the input text.
\<close>

theorem process_unknown_strategy_skipped:
  "(unknown_strategy rules item \<longrightarrow> process_step rules (result, vm) item = (result, vm))
   \<and> process text items rules =
       process text (filter (\<lambda>item. \<not> unknown_strategy rules item) items) rules
   \<and> ((\<forall>item\<in>set items. unknown_strategy rules item) \<longrightarrow> process text items rules = text)"
proof (intro conjI impI)
  assume "unknown_strategy rules item"
  then show "process_step rules (result, vm) item = (result, vm)"
    by (simp add: process_step_def process_item_unknown)
next
  let ?P = "\<lambda>item. \<not> unknown_strategy rules item"
  have skip: "\<And>x st. \<not> ?P x \<Longrightarrow> process_step rules st x = st"
    by (simp add: process_step_def process_item_unknown)
  have "foldl (process_step rules) (text, Map.empty) (sorted_reverse start_pos (filter ?P items))
        = foldl (process_step rules) (text, Map.empty) (sorted_reverse start_pos items)"
    unfolding sorted_reverse_filter using skip by (rule foldl_skip_filter)
  then show eq: "process text items rules = process text (filter ?P items) rules"
    by (auto simp: process_def sorted_reverse_def)
  assume "\<forall>item\<in>set items. unknown_strategy rules item"
  then have "filter ?P items = []" by (simp add: filter_empty_conv)
  with eq show "process text items rules = text" by (simp add: process_def)
qed

text \<open>A phone number under an enabled rule with the strategy name \<^verbatim>\<open>encrypt\<close>.\<close>

theorem process_unknown_strategy_skipped_witness:
  "process (ascii ''call 13812345678 now'') [mk_item ''phone'' ''13812345678'' 5 16 (Fin 1)]
           [mk_rule ''phone'' ''encrypt'' True] = ascii ''call 13812345678 now''"
  using process_unknown_strategy_skipped[of "[mk_rule ''phone'' ''encrypt'' True]" _ _ _
          "ascii ''call 13812345678 now''" "[mk_item ''phone'' ''13812345678'' 5 16 (Fin 1)]"]
  by (simp add: unknown_strategy_def mk_rule_def mk_item_def ascii_def process_def)

section \<open>Consistency of the replacements\<close>

lemma process_item_cases:
  "process_item rules (res, vm) item = (None, (res, vm)) \<or>
   (\<exists>nv. process_item rules (res, vm) item =
            (Some nv, (slice_to res (start_pos item) @ nv @ slice_from res (end_pos item),
                       vm(cache_key item \<mapsto> nv)))
         \<and> (\<forall>c. vm (cache_key item) = Some c \<longrightarrow> nv = c))"
  by (auto simp: process_item_def Let_def fun_upd_idem split: option.splits)

lemma replacements_respect_cache:
  "(i, v) \<in> set (replacements rules (res, vm) items) \<Longrightarrow> vm (cache_key i) = Some c \<Longrightarrow> v = c"
proof (induction items arbitrary: res vm)
  case Nil
  then show ?case by simp
next
  case (Cons item items)
  from process_item_cases[of rules res vm item] show ?case
  proof
    assume skip: "process_item rules (res, vm) item = (None, (res, vm))"
    with Cons.prems have "(i, v) \<in> set (replacements rules (res, vm) items)"
      by (simp add: process_step_def)
    with Cons.IH Cons.prems(2) show ?thesis by blast
  next
    assume "\<exists>nv. process_item rules (res, vm) item =
            (Some nv, (slice_to res (start_pos item) @ nv @ slice_from res (end_pos item),
                       vm(cache_key item \<mapsto> nv)))
         \<and> (\<forall>c. vm (cache_key item) = Some c \<longrightarrow> nv = c)"
    then obtain nv where
      pi: "process_item rules (res, vm) item =
            (Some nv, (slice_to res (start_pos item) @ nv @ slice_from res (end_pos item),
                       vm(cache_key item \<mapsto> nv)))"
      and hit: "\<forall>c. vm (cache_key item) = Some c \<longrightarrow> nv = c" by blast
    let ?res' = "slice_to res (start_pos item) @ nv @ slice_from res (end_pos item)"
    let ?vm' = "vm(cache_key item \<mapsto> nv)"
    from Cons.prems(1) pi
    have "(i, v) = (item, nv) \<or> (i, v) \<in> set (replacements rules (?res', ?vm') items)"
      by (simp add: process_step_def)
    then show ?thesis
    proof
      assume "(i, v) = (item, nv)"
      with hit Cons.prems(2) show ?thesis by simp
    next
      assume tl: "(i, v) \<in> set (replacements rules (?res', ?vm') items)"
      have "?vm' (cache_key i) = Some c"
      proof (cases "cache_key i = cache_key item")
        case True
        with hit Cons.prems(2) show ?thesis by simp
      next
        case False
        with Cons.prems(2) show ?thesis by simp
      qed
      with Cons.IH[OF tl] show ?thesis .
    qed
  qed
qed

lemma replacements_same_key:
  "(i1, v1) \<in> set (replacements rules (res, vm) items) \<Longrightarrow>
   (i2, v2) \<in> set (replacements rules (res, vm) items) \<Longrightarrow>
   cache_key i1 = cache_key i2 \<Longrightarrow> v1 = v2"
proof (induction items arbitrary: res vm)
  case Nil
  then show ?case by simp
next
  case (Cons item items)
  from process_item_cases[of rules res vm item] show ?case
  proof
    assume skip: "process_item rules (res, vm) item = (None, (res, vm))"
    with Cons.prems have "(i1, v1) \<in> set (replacements rules (res, vm) items)"
      "(i2, v2) \<in> set (replacements rules (res, vm) items)"
      by (simp_all add: process_step_def)
    with Cons.IH Cons.prems(3) show ?thesis by blast
  next
    assume "\<exists>nv. process_item rules (res, vm) item =
            (Some nv, (slice_to res (start_pos item) @ nv @ slice_from res (end_pos item),
                       vm(cache_key item \<mapsto> nv)))
         \<and> (\<forall>c. vm (cache_key item) = Some c \<longrightarrow> nv = c)"
    then obtain nv where
      pi: "process_item rules (res, vm) item =
            (Some nv, (slice_to res (start_pos item) @ nv @ slice_from res (end_pos item),
                       vm(cache_key item \<mapsto> nv)))" by blast
    let ?res' = "slice_to res (start_pos item) @ nv @ slice_from res (end_pos item)"
    let ?vm' = "vm(cache_key item \<mapsto> nv)"
    let ?tl = "set (replacements rules (?res', ?vm') items)"
    from Cons.prems(1,2) pi
    have mem: "(i1, v1) = (item, nv) \<or> (i1, v1) \<in> ?tl" "(i2, v2) = (item, nv) \<or> (i2, v2) \<in> ?tl"
      by (simp_all add: process_step_def)
    have stored: "v = nv" if "(i, v) \<in> ?tl" "cache_key i = cache_key item" for i v
      using replacements_respect_cache[OF that(1), of nv] that(2) by simp
    from mem show ?thesis
    proof (elim disjE)
      assume "(i1, v1) = (item, nv)" "(i2, v2) = (item, nv)"
      then show ?thesis by simp
    next
      assume "(i1, v1) = (item, nv)" "(i2, v2) \<in> ?tl"
      with stored[of i2 v2] Cons.prems(3) show ?thesis by simp
    next
      assume "(i1, v1) \<in> ?tl" "(i2, v2) = (item, nv)"
      with stored[of i1 v1] Cons.prems(3) show ?thesis by simp
    next
      assume "(i1, v1) \<in> ?tl" "(i2, v2) \<in> ?tl"
      with Cons.IH Cons.prems(3) show ?thesis by blast
    qed
  qed
qed

text \<open>
  The log is what \<open>process\<close> splices: applying the logged replacements to the text, in
  order, gives the output of \<open>process\<close>.
\<close>

lemma foldl_replacements:
  "foldl (\<lambda>res (i, v). slice_to res (start_pos i) @ v @ slice_from res (end_pos i)) (fst st)
         (replacements rules st items)
   = fst (foldl (process_step rules) st items)"
proof (induction items arbitrary: st)
  case Nil
  then show ?case by simp
next
  case (Cons item items)
  obtain res vm where st: "st = (res, vm)" by (cases st)
  let ?st' = "process_step rules st item"
  from process_item_cases[of rules res vm item]
  have "(replacements rules st (item # items) = replacements rules ?st' items \<and> fst ?st' = fst st)
      \<or> (\<exists>nv. replacements rules st (item # items) = (item, nv) # replacements rules ?st' items
              \<and> fst ?st' = slice_to (fst st) (start_pos item) @ nv @ slice_from (fst st) (end_pos item))"
    unfolding st by (auto simp: process_step_def)
  then show ?case
    using Cons.IH[of ?st'] by auto
qed

lemma process_splices_replacements:
  "process text items rules =
     foldl (\<lambda>res (i, v). slice_to res (start_pos i) @ v @ slice_from res (end_pos i)) text
           (process_replacements text items rules)"
  using foldl_replacements[of "(text, Map.empty)" rules "sorted_reverse start_pos items"]
  by (simp add: process_def process_replacements_def)

text \<open>
  Claim C2. Within one call of \<open>process\<close>, any two replacements produced for spans with the
  same category and the same value are equal. (With the same category and one rule list,
  both spans resolve to the same enabled rule.)
\<close>

theorem process_consistent_replacements:
  "\<forall>(i1, v1) \<in> set (process_replacements text items rules).
   \<forall>(i2, v2) \<in> set (process_replacements text items rules).
     item_type i1 = item_type i2 \<and> item_value i1 = item_value i2 \<longrightarrow> v1 = v2"
proof (clarify)
  fix i1 v1 i2 v2
  assume m: "(i1, v1) \<in> set (process_replacements text items rules)"
    "(i2, v2) \<in> set (process_replacements text items rules)"
    and e: "item_type i1 = item_type i2" "item_value i1 = item_value i2"
  from e have k: "cache_key i1 = cache_key i2" by (simp add: cache_key_def)
  from m have "text \<noteq> [] \<and> items \<noteq> []"
    by (auto simp: process_replacements_def split: if_splits)
  with m k show "v1 = v2"
    by (auto simp: process_replacements_def intro: replacements_same_key)
qed

lemma process_item_example_first:
  "process_item [mk_rule ''phone'' ''mask'' True] (ascii ''13812345678 or 13812345678'', Map.empty)
     (mk_item ''phone'' ''13812345678'' 15 26 (Fin 1))
   = (Some (ascii ''138****5678''),
      (ascii ''13812345678 or 138****5678'', [ascii ''phone:13812345678'' \<mapsto> ascii ''138****5678'']))"
proof -
  have k: "cache_key (mk_item ''phone'' ''13812345678'' 15 26 (Fin 1)) = ascii ''phone:13812345678''"
    by (simp add: cache_key_def mk_item_def ascii_def colon_def)
  have sl: "slice_to (ascii ''13812345678 or 13812345678'') 15 @ ascii ''138****5678''
              @ slice_from (ascii ''13812345678 or 13812345678'') 26 = ascii ''13812345678 or 138****5678''"
    by (simp add: slice_to_def slice_from_def ascii_def)
  show ?thesis
    unfolding process_item_def by (simp add: k strategies_known mk_item_sel mk_rule_sel mask_phone_example sl Let_def)
qed

lemma process_item_example_second:
  "process_item [mk_rule ''phone'' ''mask'' True]
     (ascii ''13812345678 or 138****5678'', [ascii ''phone:13812345678'' \<mapsto> ascii ''138****5678''])
     (mk_item ''phone'' ''13812345678'' 0 11 (Fin 1))
   = (Some (ascii ''138****5678''),
      (ascii ''138****5678 or 138****5678'', [ascii ''phone:13812345678'' \<mapsto> ascii ''138****5678'']))"
proof -
  have k: "cache_key (mk_item ''phone'' ''13812345678'' 0 11 (Fin 1)) = ascii ''phone:13812345678''"
    by (simp add: cache_key_def mk_item_def ascii_def colon_def)
  have sl: "slice_to (ascii ''13812345678 or 138****5678'') 0 @ ascii ''138****5678''
              @ slice_from (ascii ''13812345678 or 138****5678'') 11 = ascii ''138****5678 or 138****5678''"
    by (simp add: slice_to_def slice_from_def ascii_def)
  show ?thesis
    unfolding process_item_def by (simp add: k strategies_known mk_item_sel mk_rule_sel sl Let_def)
qed

lemma process_replacements_example:
  "process_replacements (ascii ''13812345678 or 13812345678'')
      [mk_item ''phone'' ''13812345678'' 0 11 (Fin 1), mk_item ''phone'' ''13812345678'' 15 26 (Fin 1)]
      [mk_rule ''phone'' ''mask'' True]
     = [(mk_item ''phone'' ''13812345678'' 15 26 (Fin 1), ascii ''138****5678''),
        (mk_item ''phone'' ''13812345678'' 0 11 (Fin 1), ascii ''138****5678'')]"
proof -
  have so: "sorted_reverse start_pos
      [mk_item ''phone'' ''13812345678'' 0 11 (Fin 1), mk_item ''phone'' ''13812345678'' 15 26 (Fin 1)]
    = [mk_item ''phone'' ''13812345678'' 15 26 (Fin 1), mk_item ''phone'' ''13812345678'' 0 11 (Fin 1)]"
    by (simp add: sorted_reverse_def mk_item_def)
  have ne: "ascii ''13812345678 or 13812345678'' \<noteq> []" by (simp add: ascii_def)
  show ?thesis
    by (simp add: process_replacements_def so ne process_step_def
        process_item_example_first process_item_example_second)
qed

text \<open>A phone number at two positions under an enabled Mask rule: two equal replacements.\<close>

theorem process_consistent_replacements_witness:
  "length (process_replacements (ascii ''13812345678 or 13812345678'')
      [mk_item ''phone'' ''13812345678'' 0 11 (Fin 1), mk_item ''phone'' ''13812345678'' 15 26 (Fin 1)]
      [mk_rule ''phone'' ''mask'' True]) = 2
   \<and> snd (process_replacements (ascii ''13812345678 or 13812345678'')
      [mk_item ''phone'' ''13812345678'' 0 11 (Fin 1), mk_item ''phone'' ''13812345678'' 15 26 (Fin 1)]
      [mk_rule ''phone'' ''mask'' True] ! 0)
     = snd (process_replacements (ascii ''13812345678 or 13812345678'')
      [mk_item ''phone'' ''13812345678'' 0 11 (Fin 1), mk_item ''phone'' ''13812345678'' 15 26 (Fin 1)]
      [mk_rule ''phone'' ''mask'' True] ! 1)"
  using process_consistent_replacements[of "ascii ''13812345678 or 13812345678''"
      "[mk_item ''phone'' ''13812345678'' 0 11 (Fin 1), mk_item ''phone'' ''13812345678'' 15 26 (Fin 1)]"
      "[mk_rule ''phone'' ''mask'' True]"]
  unfolding process_replacements_example by simp

section \<open>The original value in the output\<close>

text \<open>A list contains \<open>v\<close> exactly when \<open>v\<close> is found in a division of it into pieces.\<close>

lemma straddles_iff:
  "straddles v l r \<longleftrightarrow>
     (\<exists>w1 w2. w1 \<noteq> [] \<and> w2 \<noteq> [] \<and> v = w1 @ w2 \<and> suffix w1 l \<and> prefix w2 r)"
proof
  assume "straddles v l r"
  then obtain k where k: "1 \<le> k" "k < length v" "suffix (take k v) l" "prefix (drop k v) r"
    by (auto simp: straddles_def list_ex_iff)
  then have "take k v \<noteq> []" "drop k v \<noteq> []" "v = take k v @ drop k v" by auto
  with k show "\<exists>w1 w2. w1 \<noteq> [] \<and> w2 \<noteq> [] \<and> v = w1 @ w2 \<and> suffix w1 l \<and> prefix w2 r"
    by blast
next
  assume "\<exists>w1 w2. w1 \<noteq> [] \<and> w2 \<noteq> [] \<and> v = w1 @ w2 \<and> suffix w1 l \<and> prefix w2 r"
  then obtain w1 w2 where w: "w1 \<noteq> []" "w2 \<noteq> []" "v = w1 @ w2" "suffix w1 l" "prefix w2 r"
    by blast
  then have "1 \<le> length w1" "length w1 < length v" "take (length w1) v = w1" "drop (length w1) v = w2"
    by (auto simp: Suc_le_eq)
  with w show "straddles v l r"
    unfolding straddles_def list_ex_iff by (intro bexI[of _ "length w1"]) auto
qed

lemma sublist_append_straddles:
  "sublist v (l @ r) \<longleftrightarrow> sublist v l \<or> sublist v r \<or> straddles v l r"
proof
  assume "sublist v (l @ r)"
  then consider "sublist v l" | "sublist v r"
    | w1 w2 where "v = w1 @ w2" "suffix w1 l" "prefix w2 r"
    unfolding sublist_append by blast
  then show "sublist v l \<or> sublist v r \<or> straddles v l r"
  proof cases
    case 3
    show ?thesis
    proof (cases "w1 = [] \<or> w2 = []")
      case True
      with 3 show ?thesis by (auto intro: prefix_imp_sublist suffix_imp_sublist)
    next
      case False
      with 3 show ?thesis unfolding straddles_iff by blast
    qed
  qed simp_all
next
  assume "sublist v l \<or> sublist v r \<or> straddles v l r"
  then show "sublist v (l @ r)"
    unfolding straddles_iff sublist_append by blast
qed


lemma straddles_Nil [simp]: "\<not> straddles v l []" "\<not> straddles v [] r"
  unfolding straddles_iff by auto



text \<open>Four ways in which a boundary stops the value.\<close>

lemma straddles_blocked:
  assumes "hd v \<notin> set l \<or> last v \<notin> set r \<or> (l \<noteq> [] \<and> last l \<notin> set v)
           \<or> (r \<noteq> [] \<and> hd r \<notin> set v)"
  shows "\<not> straddles v l r"
proof
  assume "straddles v l r"
  then obtain w1 w2 where w: "w1 \<noteq> []" "w2 \<noteq> []" "v = w1 @ w2" "suffix w1 l" "prefix w2 r"
    unfolding straddles_iff by blast
  from w have "hd v = hd w1" "last v = last w2" by auto
  moreover from w have "hd w1 \<in> set l" "last w2 \<in> set r"
    by (auto dest!: set_mono_suffix set_mono_prefix)
  moreover from w have "l \<noteq> []" "r \<noteq> []" by auto
  moreover from w have "last l = last w1" by (auto simp: suffix_def)
  moreover from w have "hd r = hd w2" by (auto simp: prefix_def)
  moreover from w have "last w1 \<in> set v" "hd w2 \<in> set v" by auto
  ultimately show False using assms by auto
qed










text \<open>
  Spans that lie within the text, cover at least one position and do not overlap pairwise
  are in order once \<^verbatim>\<open>process\<close> has sorted them.
\<close>

lemma spans_in_order_descending:
  assumes "0 \<le> hi" and "distinct xs"
    and "sorted_wrt (\<lambda>a b. start_pos b \<le> start_pos a) xs"
    and "\<forall>x\<in>set xs. 0 \<le> start_pos x \<and> start_pos x < end_pos x \<and> end_pos x \<le> hi"
    and "\<forall>x\<in>set xs. \<forall>y\<in>set xs. x \<noteq> y \<longrightarrow>
           end_pos x \<le> start_pos y \<or> end_pos y \<le> start_pos x"
  shows "spans_in_order hi xs"
  using assms
proof (induction xs arbitrary: hi)
  case Nil
  then show ?case by simp
next
  case (Cons x xs)
  have "\<forall>y\<in>set xs. 0 \<le> start_pos y \<and> start_pos y < end_pos y \<and> end_pos y \<le> start_pos x"
  proof
    fix y assume y: "y \<in> set xs"
    with Cons.prems(2) have "x \<noteq> y" by auto
    with Cons.prems(5) y have "end_pos x \<le> start_pos y \<or> end_pos y \<le> start_pos x" by simp
    moreover from Cons.prems(3) y have "start_pos y \<le> start_pos x" by simp
    moreover from Cons.prems(4) y have "0 \<le> start_pos y" "start_pos y < end_pos y"
      "start_pos x < end_pos x" by simp_all
    ultimately show "0 \<le> start_pos y \<and> start_pos y < end_pos y \<and> end_pos y \<le> start_pos x"
      by linarith
  qed
  moreover from Cons.prems(4) have "0 \<le> start_pos x" by simp
  ultimately have "spans_in_order (start_pos x) xs"
    using Cons.prems(2,3,5) by (intro Cons.IH) auto
  with Cons.prems(4) show ?case by simp
qed

lemma sorted_reverse_descending:
  "sorted_wrt (\<lambda>a b. key b \<le> key a) (sorted_reverse key xs)"
proof -
  have "sorted (map key (sort_key key (rev xs)))" by (rule sorted_sort_key)
  then have "sorted_wrt (\<lambda>a b. key a \<le> key b) (sort_key key (rev xs))"
    by (simp add: sorted_map)
  then show ?thesis by (simp add: sorted_reverse_def sorted_wrt_rev)
qed

lemma spans_in_order_sorted:
  assumes "\<forall>x\<in>set items. 0 \<le> start_pos x \<and> start_pos x < end_pos x
                         \<and> end_pos x \<le> int (length text)"
    and "\<forall>i j. i < length items \<and> j < length items \<and> i \<noteq> j \<longrightarrow>
           end_pos (items ! i) \<le> start_pos (items ! j)
         \<or> end_pos (items ! j) \<le> start_pos (items ! i)"
  shows "spans_in_order (int (length text)) (sorted_reverse start_pos items)"
proof -
  have d: "distinct items"
    unfolding distinct_conv_nth
  proof (intro allI impI)
    fix i j assume ij: "i < length items" "j < length items" "i \<noteq> j"
    show "items ! i \<noteq> items ! j"
    proof
      assume e: "items ! i = items ! j"
      from ij assms(2) have "end_pos (items ! i) \<le> start_pos (items ! j)
                           \<or> end_pos (items ! j) \<le> start_pos (items ! i)" by blast
      with e have "end_pos (items ! i) \<le> start_pos (items ! i)" by auto
      moreover from ij(1) assms(1) have "start_pos (items ! i) < end_pos (items ! i)" by simp
      ultimately show False by simp
    qed
  qed
  have p: "\<forall>x\<in>set items. \<forall>y\<in>set items. x \<noteq> y \<longrightarrow>
             end_pos x \<le> start_pos y \<or> end_pos y \<le> start_pos x"
  proof (intro ballI impI)
    fix x y assume "x \<in> set items" "y \<in> set items" "x \<noteq> y"
    then obtain i j where "i < length items" "j < length items" "x = items ! i" "y = items ! j"
      "i \<noteq> j" by (auto simp: in_set_conv_nth)
    with assms(2) show "end_pos x \<le> start_pos y \<or> end_pos y \<le> start_pos x" by blast
  qed
  have s: "set (sorted_reverse start_pos items) = set items"
    and d': "distinct (sorted_reverse start_pos items)"
    using d by (simp_all add: sorted_reverse_def)
  show ?thesis
    by (rule spans_in_order_descending)
       (use d' s p assms(1) in \<open>simp_all add: sorted_reverse_descending\<close>)
qed






text \<open>
  A single span at any position: the value is not in the output when its first character
  does not occur before the span, its last character does not occur after the span, and
  the replacement does not contain it.
\<close>

lemma process_single:
  assumes "find_rule (item_type s) rules = Some r" and "strategies (strategy r) = Some f"
    and "text \<noteq> []"
  shows "process text [s] rules =
           slice_to text (start_pos s) @ f (item_value s) (item_type s) @ slice_from text (end_pos s)"
proof -
  from assms(1) have "enabled r" by (induction rules) (auto split: if_splits)
  with assms show ?thesis
    by (simp add: process_def sorted_reverse_def process_step_def process_item_def Let_def)
qed

lemma process_single_span_hidden:
  assumes "find_rule (item_type s) rules = Some r" and "strategies (strategy r) = Some f"
    and "item_value s \<noteq> []"
    and "hd (item_value s) \<notin> set (slice_to text (start_pos s))"
    and "last (item_value s) \<notin> set (slice_from text (end_pos s))"
    and "\<not> sublist (item_value s) (f (item_value s) (item_type s))"
  shows "\<not> sublist (item_value s) (process text [s] rules)"
proof (cases "text = []")
  case True
  with assms(3) show ?thesis by (simp add: process_def)
next
  case False
  let ?v = "item_value s" and ?p = "slice_to text (start_pos s)"
  let ?n = "f (item_value s) (item_type s)" and ?s = "slice_from text (end_pos s)"
  from assms(3) have hv: "hd ?v \<in> set ?v" "last ?v \<in> set ?v" by simp_all
  have "\<not> sublist ?v ?p" using hv(1) assms(4) by (auto dest!: set_mono_sublist)
  moreover have "\<not> sublist ?v ?s" using hv(2) assms(5) by (auto dest!: set_mono_sublist)
  moreover have "\<not> straddles ?v ?p (?n @ ?s)" using assms(4) by (intro straddles_blocked) simp
  moreover have "\<not> straddles ?v ?n ?s" using assms(5) by (intro straddles_blocked) simp
  ultimately have "\<not> sublist ?v (?p @ ?n @ ?s)"
    using assms(6) by (simp add: sublist_append_straddles)
  then show ?thesis by (simp add: process_single[OF assms(1,2) False])
qed

lemma shorter_changed_not_sublist:
  assumes "length n \<le> length v" and "n \<noteq> v"
  shows "\<not> sublist v n"
proof
  assume "sublist v n"
  then obtain ps ss where n: "n = ps @ v @ ss" by (auto simp: sublist_def)
  with assms(1) have "ps = []" "ss = []" by auto
  with n assms(2) show False by simp
qed

text \<open>
  Replacements that do not contain the value: that of Delete, and those of Mask for a name
  of two characters or more, for an ID card, a phone number and a bank card long enough to
  have a masked middle, when the value itself has no \<^verbatim>\<open>*\<close>.
\<close>

lemma strategies_hide_value:
  assumes "v \<noteq> []"
  shows "\<not> sublist v (DeleteStrategy_apply v t)"
    and "2 \<le> length v \<Longrightarrow> star \<notin> set v \<Longrightarrow> \<not> sublist v (MaskStrategy_apply v (ascii ''name''))"
    and "18 \<le> length v \<Longrightarrow> star \<notin> set v \<Longrightarrow> \<not> sublist v (MaskStrategy_apply v (ascii ''id_card''))"
    and "11 \<le> length v \<Longrightarrow> star \<notin> set v \<Longrightarrow> \<not> sublist v (MaskStrategy_apply v (ascii ''phone''))"
    and "9 \<le> length v \<Longrightarrow> star \<notin> set v \<Longrightarrow> \<not> sublist v (MaskStrategy_apply v (ascii ''bank_card''))"
proof -
  show "\<not> sublist v (DeleteStrategy_apply v t)"
    using assms by (simp add: DeleteStrategy_apply_def)
  have hide: "\<not> sublist v n" if "length n \<le> length v" "star \<in> set n" "star \<notin> set v" for n
    using that by (intro shorter_changed_not_sublist) auto
  {
    assume l: "2 \<le> length v" and s: "star \<notin> set v"
    show "\<not> sublist v (MaskStrategy_apply v (ascii ''name''))"
      using l s assms by (intro hide) (auto simp: MaskStrategy_apply_def)
  }
  {
    assume l: "18 \<le> length v" and s: "star \<notin> set v"
    show "\<not> sublist v (MaskStrategy_apply v (ascii ''id_card''))"
      using l s assms
      by (intro hide) (auto simp: MaskStrategy_apply_def ascii_names_distinct length_slice_to length_slice_from_neg)
  }
  {
    assume l: "11 \<le> length v" and s: "star \<notin> set v"
    show "\<not> sublist v (MaskStrategy_apply v (ascii ''phone''))"
      using l s assms
      by (intro hide) (auto simp: MaskStrategy_apply_def ascii_names_distinct length_slice_to length_slice_from_neg)
  }
  {
    assume l: "9 \<le> length v" and s: "star \<notin> set v"
    show "\<not> sublist v (MaskStrategy_apply v (ascii ''bank_card''))"
      using l s assms
      by (intro hide) (auto simp: MaskStrategy_apply_def ascii_names_distinct length_slice_to length_slice_from_neg)
  }
qed

section \<open>The matches of the regular expressions are not empty\<close>

lemma backtrack_Some:
  "backtrack cont s lo j = Some m \<Longrightarrow> \<exists>j' m'. lo \<le> j' \<and> cont (drop j' s) = Some m' \<and> m = j' + m'"
proof (induction j)
  case 0
  then have "lo \<le> 0" "cont (drop 0 s) = Some m" "m = 0 + m"
    by (auto split: if_splits)
  then show ?case by blast
next
  case (Suc j)
  show ?case
  proof (cases "cont (drop (Suc j) s)")
    case None
    with Suc show ?thesis by (auto split: if_splits)
  next
    case (Some m')
    with Suc.prems have "lo \<le> Suc j" "m = Suc j + m'" by (auto split: if_splits)
    with Some show ?thesis by blast
  qed
qed

lemma match_here_min_len: "match_here p s = Some m \<Longrightarrow> min_len p \<le> m"
proof (induction p arbitrary: s m)
  case Nil
  then show ?case by (simp add: min_len_def)
next
  case (Cons a rest)
  obtain cls lo hi where a: "a = (cls, lo, hi)" by (cases a)
  from Cons.prems a obtain j' m' where "lo \<le> j'" "match_here rest (drop j' s) = Some m'" "m = j' + m'"
    by (auto dest: backtrack_Some)
  with Cons.IH[of "drop j' s" m'] a show ?case by (simp add: min_len_def)
qed

lemma finditer_from_nonempty:
  "0 < min_len p \<Longrightarrow> (a, b) \<in> set (finditer_from p s pos) \<Longrightarrow> a < b"
proof (induction p s pos rule: finditer_from.induct)
  case (1 p s pos)
  show ?case
  proof (cases "length s < pos")
    case True
    with "1.prems" show ?thesis by (simp add: finditer_from.simps[of p s pos])
  next
    case False
    show ?thesis
    proof (cases "match_here p (drop pos s)")
      case None
      with False "1.prems" "1.IH"(1) show ?thesis
        by (simp add: finditer_from.simps[of p s pos])
    next
      case (Some m)
      with "1.prems"(1) have m: "0 < m" using match_here_min_len by fastforce
      with False Some "1.prems"(2)
      have "(a, b) = (pos, pos + m) \<or> (a, b) \<in> set (finditer_from p s (pos + m))"
        by (simp add: finditer_from.simps[of p s pos])
      with m False Some "1.IH"(3) "1.prems"(1) show ?thesis by auto
    qed
  qed
qed

lemma REGEX_PATTERNS_min_len: "(t, p) \<in> set (REGEX_PATTERNS digit) \<Longrightarrow> 0 < min_len p"
  by (auto simp: REGEX_PATTERNS_def min_len_def)

section \<open>The regex scan emits no overlapping spans\<close>

lemma fold_insert_set: "fold insert xs A = set xs \<union> A"
  by (induction xs arbitrary: A) auto

lemma scan_matches_inv:
  "scan_inv st \<Longrightarrow> \<forall>(a, b)\<in>set ms. a < b \<Longrightarrow>
   \<exists>st'. scan_matches uuid4 dtype text ms st = Inr st' \<and> scan_inv st'"
proof (induction ms arbitrary: st)
  case Nil
  then show ?case by simp
next
  case (Cons ab ms)
  obtain a b where ab: "ab = (a, b)" by (cases ab)
  obtain items matched where st: "st = (items, matched)" by (cases st)
  from Cons.prems(2) ab have lt: "a < b" and rest: "\<forall>(a, b)\<in>set ms. a < b" by auto
  show ?case
  proof (cases "list_ex (\<lambda>pos. pos \<in> matched) [a..<b]")
    case True
    with Cons.IH[OF Cons.prems(1) rest] ab st show ?thesis by simp
  next
    case False
    let ?item = "\<lparr>item_id = uuid4 (length items), item_type = dtype,
                   item_value = take (b - a) (drop a text),
                   start_pos = int a, end_pos = int b, confidence = Fin 1\<rparr>"
    let ?st' = "(items @ [?item], fold insert [a..<b] matched)"
    from False have free: "\<forall>p. a \<le> p \<and> p < b \<longrightarrow> p \<notin> matched"
      by (auto simp: list_ex_iff)
    have no: "\<not> overlap y ?item" if y: "y \<in> set items" for y
    proof
      assume ov: "overlap y ?item"
      from Cons.prems(1) st y have ypos: "0 \<le> start_pos y" "start_pos y < end_pos y"
        and yin: "\<And>p. start_pos y \<le> int p \<Longrightarrow> int p < end_pos y \<Longrightarrow> p \<in> matched"
        by (auto simp: scan_inv_def)
      let ?p = "max a (nat (start_pos y))"
      from ov ypos lt have "start_pos y \<le> int ?p" "int ?p < end_pos y" "a \<le> ?p" "?p < b"
        by (auto simp: overlap_def)
      with yin[of ?p] free show False by blast
    qed
    from Cons.prems(1) st lt no have "scan_inv ?st'"
      by (auto simp: scan_inv_def nonoverlapping_snoc fold_insert_set)
    from Cons.IH[OF this rest] False lt ab st show ?thesis
      by (simp add: SensitiveItem_init_def)
  qed
qed

lemma scan_patterns_inv:
  "scan_inv st \<Longrightarrow> \<forall>(t, p)\<in>set ps. 0 < min_len p \<Longrightarrow>
   \<exists>st'. scan_patterns uuid4 text ps st = Inr st' \<and> scan_inv st'"
proof (induction ps arbitrary: st)
  case Nil
  then show ?case by simp
next
  case (Cons tp ps)
  obtain t p where tp: "tp = (t, p)" by (cases tp)
  from Cons.prems(2) tp have "0 < min_len p" by simp
  then have "\<forall>(a, b)\<in>set (finditer p text). a < b"
    by (auto simp: finditer_def dest: finditer_from_nonempty)
  from scan_matches_inv[OF Cons.prems(1) this]
  obtain st1 where s1: "scan_matches uuid4 t text (finditer p text) st = Inr st1" "scan_inv st1"
    by blast
  from Cons.prems(2) have "\<forall>(t, p)\<in>set ps. 0 < min_len p" by simp
  from Cons.IH[OF s1(2) this] s1(1) tp show ?case by simp
qed

lemma regex_recognition_inv:
  "\<exists>items matched. regex_recognition digit uuid4 text = Inr items \<and> scan_inv (items, matched)"
proof -
  have "scan_inv ([], {})" by (simp add: scan_inv_def)
  moreover have "\<forall>(t, p)\<in>set (REGEX_PATTERNS digit). 0 < min_len p"
    using REGEX_PATTERNS_min_len by blast
  ultimately obtain st' where
    "scan_patterns uuid4 text (REGEX_PATTERNS digit) ([], {}) = Inr st'" "scan_inv st'"
    using scan_patterns_inv by blast
  then show ?thesis by (cases st') (auto simp: regex_recognition_def)
qed

text \<open>
  Claim C7. For every text (and every class of digits and supply of ids) the regex scan
  returns a list of items, each covering at least one position, and no two items at
  distinct positions of the list overlap. In particular an item emitted as an ID card and
  an item emitted as a bank card never overlap.
\<close>

theorem regex_recognition_no_overlap:
  "\<exists>items. regex_recognition digit uuid4 text = Inr items
     \<and> (\<forall>x\<in>set items. start_pos x < end_pos x)
     \<and> (\<forall>i j. i < length items \<and> j < length items \<and> i \<noteq> j \<longrightarrow>
            end_pos (items ! i) \<le> start_pos (items ! j)
          \<or> start_pos (items ! i) \<ge> end_pos (items ! j))
     \<and> (\<forall>a\<in>set items. \<forall>b\<in>set items.
            item_type a = ascii ''id_card'' \<and> item_type b = ascii ''bank_card'' \<longrightarrow>
            end_pos a \<le> start_pos b \<or> start_pos a \<ge> end_pos b)"
proof -
  from regex_recognition_inv[of digit uuid4 "text"] obtain items matched where
    r: "regex_recognition digit uuid4 text = Inr items" and inv: "scan_inv (items, matched)"
    by blast
  from inv have n: "nonoverlapping items" and ne: "\<forall>x\<in>set items. start_pos x < end_pos x"
    by (simp_all add: scan_inv_def)
  have pair: "\<not> overlap (items ! i) (items ! j)"
    if "i < length items" "j < length items" "i \<noteq> j" for i j
  proof -
    from that(3) consider "i < j" | "j < i" by linarith
    then show ?thesis
    proof cases
      case 1 with n that show ?thesis by (simp add: nonoverlapping_nth)
    next
      case 2 with n that have "\<not> overlap (items ! j) (items ! i)" by (simp add: nonoverlapping_nth)
      then show ?thesis by (simp add: overlap_sym)
    qed
  qed
  have types: "\<not> overlap a b"
    if "a \<in> set items" "b \<in> set items" "item_type a = ascii ''id_card''"
       "item_type b = ascii ''bank_card''" for a b
  proof -
    from that(1,2) obtain i j where ij: "i < length items" "j < length items"
      "a = items ! i" "b = items ! j" by (auto simp: in_set_conv_nth)
    from that(3,4) have "a \<noteq> b" by (auto simp: ascii_def)
    with ij have "i \<noteq> j" by auto
    with pair ij show ?thesis by simp
  qed
  from r ne pair types show ?thesis by (auto simp: overlap_def)
qed

lemma regex_recognition_example:
  "regex_recognition ascii_digit (\<lambda>n. []) (ascii ''13812345678 110101199001011234'')
     = Inr [mk_item ''id_card'' ''110101199001011234'' 12 30 (Fin 1),
            mk_item ''phone'' ''13812345678'' 0 11 (Fin 1)]"
  by code_simp

text \<open>
  A phone number and an 18-digit run: the run is emitted once, as an ID card, and the two
  items do not overlap.
\<close>

theorem regex_recognition_no_overlap_witness:
  "\<exists>items. regex_recognition ascii_digit (\<lambda>n. []) (ascii ''13812345678 110101199001011234'') = Inr items
     \<and> length items = 2
     \<and> (end_pos (items ! 0) \<le> start_pos (items ! 1) \<or> start_pos (items ! 0) \<ge> end_pos (items ! 1))"
proof -
  from regex_recognition_no_overlap[of ascii_digit "\<lambda>n. []" "ascii ''13812345678 110101199001011234''"]
  obtain items where
    r: "regex_recognition ascii_digit (\<lambda>n. []) (ascii ''13812345678 110101199001011234'') = Inr items"
    and p: "\<forall>i j. i < length items \<and> j < length items \<and> i \<noteq> j \<longrightarrow>
            end_pos (items ! i) \<le> start_pos (items ! j)
          \<or> start_pos (items ! i) \<ge> end_pos (items ! j)"
    by blast
  from r have len: "length items = 2" unfolding regex_recognition_example by auto
  with p have "end_pos (items ! 0) \<le> start_pos (items ! 1) \<or> start_pos (items ! 0) \<ge> end_pos (items ! 1)"
    by simp
  with r len show ?thesis by blast
qed

section \<open>Identification without the extractor\<close>

text \<open>
  Claim C8. With \<^verbatim>\<open>use_nlp=False\<close> the call returns the deduplicated items of the regex
  scan and leaves the state of the engine as it was, whatever \<open>nlp_recognition\<close> is: it
  does not raise \<^verbatim>\<open>RecognitionError\<close>.
\<close>

theorem identify_without_nlp:
  "\<exists>items. regex_recognition digit uuid4 text = Inr items
     \<and> identify_sensitive_data digit uuid4 nlp_recognition self text False
         = (Inr (deduplicate items), self)
     \<and> fst (identify_sensitive_data digit uuid4 nlp_recognition self text False)
         \<noteq> Inl RecognitionError"
proof -
  from regex_recognition_inv[of digit uuid4 "text"] obtain items where
    "regex_recognition digit uuid4 text = Inr items" by blast
  then show ?thesis by (simp add: identify_sensitive_data_def)
qed

text \<open>
  An instance in which \<open>nlp_recognition\<close> would raise \<^verbatim>\<open>RecognitionError\<close>: without the
  flag the call returns the two items of the regex scan, sorted by start.
\<close>

theorem identify_without_nlp_witness:
  "identify_sensitive_data ascii_digit (\<lambda>n. []) (\<lambda>self text. (Inl RecognitionError, self))
       \<lparr>nlp_model = None :: unit option\<rparr> (ascii ''13812345678 110101199001011234'') False
     = (Inr [mk_item ''phone'' ''13812345678'' 0 11 (Fin 1),
             mk_item ''id_card'' ''110101199001011234'' 12 30 (Fin 1)],
        \<lparr>nlp_model = None\<rparr>)"
proof -
  have d: "deduplicate [mk_item ''id_card'' ''110101199001011234'' 12 30 (Fin 1),
                        mk_item ''phone'' ''13812345678'' 0 11 (Fin 1)]
           = [mk_item ''phone'' ''13812345678'' 0 11 (Fin 1),
              mk_item ''id_card'' ''110101199001011234'' 12 30 (Fin 1)]"
    by (simp add: deduplicate_def dedup_step_def mk_item_def overlap_def)
  from identify_without_nlp[of ascii_digit "\<lambda>n. []" "ascii ''13812345678 110101199001011234''"
      "\<lambda>self text. (Inl RecognitionError, self)" "\<lparr>nlp_model = None :: unit option\<rparr>"]
  show ?thesis unfolding regex_recognition_example by (simp add: d)
qed

text \<open>With the flag, a \<^verbatim>\<open>RecognitionError\<close> of the extractor reaches the caller.\<close>

lemma identify_with_nlp_propagates:
  "regex_recognition digit uuid4 text = Inr items \<Longrightarrow>
   nlp_recognition self text = (Inl RecognitionError, self') \<Longrightarrow>
   identify_sensitive_data digit uuid4 nlp_recognition self text True = (Inl RecognitionError, self')"
  by (simp add: identify_sensitive_data_def)

end
